theory Spec2Isabelle
  imports Main "HOL-Library.Sublist"
begin

section \<open>Strings\<close>

text \<open>
  The dashboard component (\<^verbatim>\<open>Dashboard\<close>, with \<^verbatim>\<open>updateTicket\<close>, \<^verbatim>\<open>summarize\<close>,
  \<^verbatim>\<open>analyzeSentiment\<close>, \<^verbatim>\<open>routeDecision\<close>, \<^verbatim>\<open>runPipeline\<close>, \<^verbatim>\<open>addTicket\<close> and \<^verbatim>\<open>runAll\<close>)
  works on JavaScript strings, which are sequences of UTF-16 code units. A \<^typ>\<open>string\<close>
  here is a sequence of code units in the range 0..255 (ASCII and the Latin-1 block), one
  \<^typ>\<open>char\<close> per code unit, so \<^const>\<open>length\<close> is \<^verbatim>\<open>.length\<close>, \<^const>\<open>take\<close> is
  \<^verbatim>\<open>.slice(0, n)\<close> and \<open>@\<close> is \<^verbatim>\<open>+\<close>.
\<close>

definition is_ws :: "char \<Rightarrow> bool" where
  \<comment> \<open>the class \<^verbatim>\<open>\s\<close> (and what \<^verbatim>\<open>trim\<close> strips) below U+0100: TAB, LF, VT, FF, CR, SP, NBSP\<close>
  "is_ws c = (c \<in> set [CHR 0x09, CHR 0x0A, CHR 0x0B, CHR 0x0C, CHR 0x0D, CHR 0x20, CHR 0xA0])"

function replace_ws :: "string \<Rightarrow> string" where
  \<comment> \<open>\<^verbatim>\<open>text.replace(/\s+/g, " ")\<close>: every maximal run of whitespace becomes one space\<close>
  "replace_ws [] = []"
| "replace_ws (c # cs) =
     (if is_ws c then CHR '' '' # replace_ws (dropWhile is_ws cs) else c # replace_ws cs)"
  by pat_completeness auto
termination
  by (relation "measure length") (auto simp: length_dropWhile_le less_Suc_eq_le)

definition trim :: "string \<Rightarrow> string" where
  \<comment> \<open>\<^verbatim>\<open>.trim()\<close>: whitespace is stripped from both ends\<close>
  "trim s = rev (dropWhile is_ws (rev (dropWhile is_ws s)))"

definition lower_unit :: "char \<Rightarrow> char" where
  \<comment> \<open>the lower-case mapping below U+0100: A..Z, and U+00C0..U+00DE but for the
      multiplication sign U+00D7, move up by 32\<close>
  "lower_unit c =
     (let n = (of_char c :: nat)
      in if (65 \<le> n \<and> n \<le> 90) \<or> (192 \<le> n \<and> n \<le> 222 \<and> n \<noteq> 215) then char_of (n + 32) else c)"

definition toLowerCase :: "string \<Rightarrow> string" where
  "toLowerCase s = map lower_unit s"

fun regex_test :: "string list \<Rightarrow> string \<Rightarrow> bool" where
  \<comment> \<open>\<^verbatim>\<open>/(k1|k2|...)/.test(s)\<close> for literal alternatives: some alternative matches at
      some start position, tried left to right\<close>
  "regex_test alts [] = list_ex (\<lambda>k. prefix k []) alts"
| "regex_test alts (c # cs) = (list_ex (\<lambda>k. prefix k (c # cs)) alts \<or> regex_test alts cs)"

section \<open>Stage functions\<close>

definition summarize :: "string \<Rightarrow> string" where
  "summarize text_in =
     (let s = trim (replace_ws text_in)
      in if length s > 120 then take 120 s @ ''...'' else s)"

definition negative_alts :: "string list" where
  "negative_alts = [''can't'', ''cannot'', ''not'', ''fail'', ''error'', ''unable'', ''broken'',
     ''refund'', ''angry'', ''threaten'']"

definition threat_alts :: "string list" where
  "threat_alts = [''threaten'', ''move to another provider'', ''i'll move'', ''i will move'']"

definition inability_alts :: "string list" where
  "inability_alts = [''can't'', ''cannot'', ''unable'', ''fail'', ''error'']"

definition gratitude_alts :: "string list" where
  "gratitude_alts = [''thanks'', ''thank you'', ''good'', ''safe'', ''arrived'']"

definition analyzeSentiment :: "string \<Rightarrow> string \<times> string" where
  \<comment> \<open>the result object \<^verbatim>\<open>{ sentiment, urgency }\<close> as the pair (sentiment, urgency)\<close>
  "analyzeSentiment summary_in =
     (let lower = toLowerCase summary_in
      in if regex_test negative_alts lower then
           (if regex_test threat_alts lower then (''angry'', ''critical'')
            else if regex_test inability_alts lower then (''frustrated'', ''high'')
            else (''negative'', ''high''))
         else if regex_test gratitude_alts lower then (''neutral'', ''low'')
         else (''neutral'', ''medium''))"

definition routeDecision :: "string option \<Rightarrow> string option \<Rightarrow> string" where
  \<comment> \<open>the argument \<^verbatim>\<open>{ urgency?: string; sentiment?: string }\<close>, urgency first;
      \<^term>\<open>None\<close> is an absent (undefined) property\<close>
  "routeDecision urgency_in sentiment_in =
     (if urgency_in = Some ''critical'' \<or> urgency_in = Some ''high'' \<or> sentiment_in = Some ''angry''
      then ''escalate_to_human'' else ''normal_queue'')"

section \<open>Tickets and the store\<close>

datatype stage = Uploaded | Summarized | Sentiment | Routed

text \<open>
  Modelled from the spec: the \<^verbatim>\<open>Ticket\<close> type is declared in \<^verbatim>\<open>components/types\<close>, which
  is not among the sources. Its fields are the ones the component reads and writes and
  the spec's data model lists: \<^verbatim>\<open>id\<close> and \<^verbatim>\<open>text\<close> and \<^verbatim>\<open>stage\<close> are required, the four
  derived fields are optional (\<^term>\<open>None\<close> is \<^verbatim>\<open>undefined\<close>). Ids are JavaScript numbers
  holding integers; they are unbounded integers here.
\<close>

record ticket =
  id_t :: int
  text_t :: string
  stage :: stage
  summary :: "string option"
  sentiment :: "string option"
  urgency :: "string option"
  action :: "string option"

text \<open>
  A \<^verbatim>\<open>Partial<Ticket>\<close>: every property may be absent (\<^term>\<open>None\<close>). A present optional
  field carries its value, which may itself be \<^verbatim>\<open>undefined\<close> (\<^term>\<open>Some None\<close>).
\<close>

record patch =
  p_id :: "int option"
  p_text :: "string option"
  p_stage :: "stage option"
  p_summary :: "string option option"
  p_sentiment :: "string option option"
  p_urgency :: "string option option"
  p_action :: "string option option"

definition no_patch :: patch where
  \<comment> \<open>the object literal \<^verbatim>\<open>{}\<close>\<close>
  "no_patch = \<lparr>p_id = None, p_text = None, p_stage = None, p_summary = None,
     p_sentiment = None, p_urgency = None, p_action = None\<rparr>"

definition spread :: "ticket \<Rightarrow> patch \<Rightarrow> ticket" where
  \<comment> \<open>\<^verbatim>\<open>{ ...t, ...patch }\<close>: a property of the patch overrides the ticket's\<close>
  "spread t p =
     \<lparr>id_t = (case p_id p of None \<Rightarrow> id_t t | Some v \<Rightarrow> v),
      text_t = (case p_text p of None \<Rightarrow> text_t t | Some v \<Rightarrow> v),
      stage = (case p_stage p of None \<Rightarrow> stage t | Some v \<Rightarrow> v),
      summary = (case p_summary p of None \<Rightarrow> summary t | Some v \<Rightarrow> v),
      sentiment = (case p_sentiment p of None \<Rightarrow> sentiment t | Some v \<Rightarrow> v),
      urgency = (case p_urgency p of None \<Rightarrow> urgency t | Some v \<Rightarrow> v),
      action = (case p_action p of None \<Rightarrow> action t | Some v \<Rightarrow> v)\<rparr>"

text \<open>
  The component's state is the list \<^verbatim>\<open>tickets\<close>. A handler created at a render reads the
  constant \<^verbatim>\<open>tickets\<close> of that render (the parameter \<open>tickets\<close> below), while a functional
  update \<^verbatim>\<open>setTickets((prev) => ...)\<close> is applied to the latest state (the parameter
  \<open>prev\<close>); the operations return the state after their updates.
\<close>

definition updateTicket :: "int \<Rightarrow> patch \<Rightarrow> ticket list \<Rightarrow> ticket list" where
  "updateTicket i p prev = map (\<lambda>t. if id_t t = i then spread t p else t) prev"

definition resolve :: "ticket list \<Rightarrow> int \<Rightarrow> ticket option \<Rightarrow> ticket option" where
  \<comment> \<open>\<^verbatim>\<open>ticketOverride || tickets.find((t) => t.id === id)\<close>\<close>
  "resolve tickets i ticketOverride =
     (case ticketOverride of Some t \<Rightarrow> Some t | None \<Rightarrow> find (\<lambda>t. id_t t = i) tickets)"

text \<open>
  \<^verbatim>\<open>runPipeline\<close> is an async function: at each of its three \<^verbatim>\<open>await\<close>s other handlers may
  run and update the store before the run goes on. What they do to the store there is a
  parameter of the model, one function on the store for each \<^verbatim>\<open>await\<close>; the identity
  stands for a run that nothing interleaves with.
\<close>

type_synonym meanwhile = "ticket list \<Rightarrow> ticket list"

definition runPipeline_trace ::
  "ticket list \<Rightarrow> int \<Rightarrow> ticket option \<Rightarrow> meanwhile \<Rightarrow> meanwhile \<Rightarrow> meanwhile \<Rightarrow> ticket list
     \<Rightarrow> ticket list list" where
  \<comment> \<open>the store right after each of the six \<^verbatim>\<open>updateTicket\<close> calls of one run, in order;
      no state at all when the ticket does not resolve\<close>
  "runPipeline_trace tickets i ticketOverride m1 m2 m3 prev =
     (case resolve tickets i ticketOverride of
        None \<Rightarrow> []
      | Some ticket \<Rightarrow>
          (let s1 = updateTicket i (no_patch\<lparr>p_stage := Some Summarized\<rparr>) prev;
               summary_v = summarize (text_t ticket);  \<comment> \<open>\<^verbatim>\<open>await summarize(ticket.text)\<close>\<close>
               s2 = updateTicket i (no_patch\<lparr>p_summary := Some (Some summary_v)\<rparr>) (m1 s1);
               s3 = updateTicket i (no_patch\<lparr>p_stage := Some Sentiment\<rparr>) s2;
               sent = analyzeSentiment summary_v;  \<comment> \<open>\<^verbatim>\<open>await analyzeSentiment(summary)\<close>\<close>
               s4 = updateTicket i (no_patch\<lparr>p_sentiment := Some (Some (fst sent)),
                      p_urgency := Some (Some (snd sent))\<rparr>) (m2 s3);
               s5 = updateTicket i (no_patch\<lparr>p_stage := Some Routed\<rparr>) s4;
               action_v = routeDecision (Some (snd sent)) (Some (fst sent));  \<comment> \<open>\<^verbatim>\<open>await routeDecision(...)\<close>\<close>
               s6 = updateTicket i (no_patch\<lparr>p_action := Some (Some action_v)\<rparr>) (m3 s5)
           in [s1, s2, s3, s4, s5, s6]))"

definition runPipeline ::
  "ticket list \<Rightarrow> int \<Rightarrow> ticket option \<Rightarrow> meanwhile \<Rightarrow> meanwhile \<Rightarrow> meanwhile \<Rightarrow> ticket list
     \<Rightarrow> ticket list" where
  \<comment> \<open>the store when the run has completed\<close>
  "runPipeline tickets i ticketOverride m1 m2 m3 prev =
     last (prev # runPipeline_trace tickets i ticketOverride m1 m2 m3 prev)"

definition leaves :: "int \<Rightarrow> meanwhile \<Rightarrow> bool" where
  \<comment> \<open>what happens meanwhile leaves the tickets with the id \<open>i\<close> as they are: no other run
      for the same id is under way, and no ticket with that id is inserted\<close>
  "leaves i m = (\<forall>st. filter (\<lambda>t. id_t t = i) (m st) = filter (\<lambda>t. id_t t = i) st)"

definition next_id :: "ticket list \<Rightarrow> int" where
  \<comment> \<open>\<^verbatim>\<open>tickets.length ? Math.max(...tickets.map((t) => t.id)) + 1 : 1\<close>\<close>
  "next_id tickets = (case tickets of [] \<Rightarrow> 1 | t # ts \<Rightarrow> fold max (map id_t ts) (id_t t) + 1)"

definition addTicket :: "ticket list \<Rightarrow> string \<Rightarrow> ticket list \<Rightarrow> ticket list \<times> (int \<times> ticket)" where
  \<comment> \<open>returns the store after the insertion, and the arguments of the run that
      \<^verbatim>\<open>setTimeout\<close> schedules\<close>
  "addTicket tickets text_in prev =
     (let i = next_id tickets;
          newTicket = \<lparr>id_t = i, text_t = text_in, stage = Uploaded, summary = None,
            sentiment = None, urgency = None, action = None\<rparr>
      in (newTicket # prev, (i, newTicket)))"

definition falsy :: "string option \<Rightarrow> bool" where
  \<comment> \<open>\<^verbatim>\<open>!v\<close> for an optional string: \<^verbatim>\<open>undefined\<close> and the empty string are falsy\<close>
  "falsy v = (case v of None \<Rightarrow> True | Some s \<Rightarrow> s = [])"

definition runAll :: "ticket list \<Rightarrow> int list" where
  \<comment> \<open>the ids that \<^verbatim>\<open>runPipeline\<close> is called with, in the order of the calls\<close>
  "runAll tickets = map id_t (filter (\<lambda>t. falsy (summary t) \<or> falsy (action t)) tickets)"

definition initialTickets :: "ticket list" where
  "initialTickets =
     [\<lparr>id_t = 1,
       text_t = ''I tried to pay my bill online but your site kept giving error 500, and the chatbot was no help at all.'',
       stage = Uploaded, summary = None, sentiment = None, urgency = None, action = None\<rparr>,
      \<lparr>id_t = 2,
       text_t = ''Just wanted to let you know the delivery was late but it arrived safely. Thanks.'',
       stage = Uploaded, summary = None, sentiment = None, urgency = None, action = None\<rparr>,
      \<lparr>id_t = 3,
       text_t = ''Reset my password 3 times, still can't get access. Please fix this ASAP or I'll move to another provider!'',
       stage = Uploaded, summary = None, sentiment = None, urgency = None, action = None\<rparr>]"

section \<open>The normal form the Summarizer is specified by\<close>

text \<open>
  The spec describes the Summarizer's normalisation in words: runs of whitespace become
  single spaces, and whitespace at the two ends is removed. Said without reference to the
  code: the text is cut into its words (the maximal runs of non-whitespace code units),
  and the words are joined by one space each.
\<close>

function spec_words :: "string \<Rightarrow> string list" where
  "spec_words [] = []"
| "spec_words (c # cs) =
     (if is_ws c then spec_words cs
      else (c # takeWhile (\<lambda>x. \<not> is_ws x) cs) # spec_words (dropWhile (\<lambda>x. \<not> is_ws x) cs))"
  by pat_completeness auto
termination
  by (relation "measure length") (auto simp: length_dropWhile_le less_Suc_eq_le)

fun spec_join :: "string list \<Rightarrow> string" where
  "spec_join [] = []"
| "spec_join [w] = w"
| "spec_join (w # v # ws) = w @ CHR '' '' # spec_join (v # ws)"

definition spec_normalize :: "string \<Rightarrow> string" where
  "spec_normalize t = spec_join (spec_words t)"

text \<open>
  A string is single-spaced when each whitespace code unit in it is a space that is not
  followed by another whitespace code unit; it is normal when, besides, it neither
  starts nor ends with whitespace.
\<close>

fun single_spaced :: "string \<Rightarrow> bool" where
  "single_spaced [] = True"
| "single_spaced (c # cs) =
     ((if is_ws c then c = CHR '' '' \<and> (cs = [] \<or> \<not> is_ws (hd cs)) else True) \<and> single_spaced cs)"

definition normal :: "string \<Rightarrow> bool" where
  "normal s = (single_spaced s \<and> (s = [] \<or> (\<not> is_ws (hd s) \<and> \<not> is_ws (last s))))"

section \<open>Stage order and example stores\<close>


definition blank_ticket :: ticket where
  \<comment> \<open>a ticket whose text is whitespace only, as \<^verbatim>\<open>addTicket("   ")\<close> creates it in an
      empty store\<close>
  "blank_ticket = \<lparr>id_t = 1, text_t = ''   '', stage = Uploaded, summary = None,
     sentiment = None, urgency = None, action = None\<rparr>"

definition blank_store :: "ticket list" where
  \<comment> \<open>the store holding that ticket alone, after its pipeline run has completed\<close>
  "blank_store = runPipeline [blank_ticket] 1 None (\<lambda>st. st) (\<lambda>st. st) (\<lambda>st. st) [blank_ticket]"

section \<open>Normalisation: the code against its specification\<close>

lemma is_ws_space: "is_ws (CHR '' '')"
  by (simp add: is_ws_def)

lemma replace_ws_nonws_run:
  "\<forall>x\<in>set w. \<not> is_ws x \<Longrightarrow> replace_ws (w @ r) = w @ replace_ws r"
  by (induction w) auto

lemma replace_ws_ws_head:
  "r = [] \<or> is_ws (hd r) \<Longrightarrow>
   replace_ws r = (if r = [] then [] else CHR '' '' # replace_ws (dropWhile is_ws r))"
  by (cases r) auto

lemma replace_ws_hd: "u = [] \<or> \<not> is_ws (hd u) \<Longrightarrow> replace_ws u = [] \<or> \<not> is_ws (hd (replace_ws u))"
  by (cases u) auto

lemma dropWhile_replace_ws: "dropWhile is_ws (replace_ws t) = replace_ws (dropWhile is_ws t)"
proof (cases t)
  case Nil
  then show ?thesis by simp
next
  case (Cons c cs)
  define u where "u = dropWhile is_ws cs"
  have u: "u = [] \<or> \<not> is_ws (hd u)"
    unfolding u_def by (metis hd_dropWhile)
  have "dropWhile is_ws (replace_ws u) = replace_ws u"
    using replace_ws_hd[OF u] by (cases "replace_ws u") auto
  then show ?thesis
    using Cons by (simp add: u_def is_ws_space)
qed

lemma spec_words_nonempty: "[] \<notin> set (spec_words t)"
  by (induction t rule: spec_words.induct) auto

lemma spec_join_Nil: "[] \<notin> set ws \<Longrightarrow> spec_join ws = [] \<Longrightarrow> ws = []"
  by (induction ws rule: spec_join.induct) auto

lemma spec_join_Cons: "ws \<noteq> [] \<Longrightarrow> spec_join (w # ws) = w @ CHR '' '' # spec_join ws"
  by (cases ws) auto

lemma rtrim_append_keep:
  "rev (dropWhile is_ws (rev x)) \<noteq> [] \<Longrightarrow>
   rev (dropWhile is_ws (rev (a @ x))) = a @ rev (dropWhile is_ws (rev x))"
proof -
  assume "rev (dropWhile is_ws (rev x)) \<noteq> []"
  then have "dropWhile is_ws (rev x) \<noteq> []" by simp
  then obtain y where "y \<in> set (rev x)" "\<not> is_ws y"
    by (metis dropWhile_eq_Nil_conv)
  then have "dropWhile is_ws (rev x @ rev a) = dropWhile is_ws (rev x) @ rev a"
    by (rule dropWhile_append1)
  then show ?thesis by simp
qed

lemma rtrim_append_drop:
  "rev (dropWhile is_ws (rev x)) = [] \<Longrightarrow>
   rev (dropWhile is_ws (rev (a @ x))) = rev (dropWhile is_ws (rev a))"
proof -
  assume "rev (dropWhile is_ws (rev x)) = []"
  then have "\<forall>y\<in>set (rev x). is_ws y"
    by (simp add: dropWhile_eq_Nil_conv)
  then have "dropWhile is_ws (rev x @ rev a) = dropWhile is_ws (rev a)"
    by (intro dropWhile_append2) auto
  then show ?thesis by simp
qed

lemma rtrim_last: "xs \<noteq> [] \<Longrightarrow> \<not> is_ws (last xs) \<Longrightarrow> rev (dropWhile is_ws (rev xs)) = xs"
  by (cases xs rule: rev_cases) auto

lemma rtrim_snoc_ws: "is_ws y \<Longrightarrow> rev (dropWhile is_ws (rev (a @ [y]))) = rev (dropWhile is_ws (rev a))"
  by simp

lemma rtrim_word:
  "\<not> is_ws c \<Longrightarrow> rev (dropWhile is_ws (rev (c # takeWhile (\<lambda>x. \<not> is_ws x) cs))) = c # takeWhile (\<lambda>x. \<not> is_ws x) cs"
proof (rule rtrim_last)
  assume c: "\<not> is_ws c"
  let ?w = "c # takeWhile (\<lambda>x. \<not> is_ws x) cs"
  show "?w \<noteq> []" by simp
  have "last ?w \<in> set ?w" by (rule last_in_set) simp
  then show "\<not> is_ws (last ?w)" using c by (auto dest: set_takeWhileD)
qed

lemma rtrim_replace_ws:
  "rev (dropWhile is_ws (rev (replace_ws (dropWhile is_ws t)))) = spec_join (spec_words t)"
proof (induction t rule: spec_words.induct)
  case 1
  show ?case by simp
next
  case (2 c cs)
  show ?case
  proof (cases "is_ws c")
    case True
    with 2 show ?thesis by simp
  next
    case False
    let ?w = "c # takeWhile (\<lambda>x. \<not> is_ws x) cs"
    let ?r = "dropWhile (\<lambda>x. \<not> is_ws x) cs"
    let ?x = "replace_ws (dropWhile is_ws ?r)"
    have IH: "rev (dropWhile is_ws (rev ?x)) = spec_join (spec_words ?r)"
      using 2(2)[OF False] .
    have w: "\<forall>x\<in>set ?w. \<not> is_ws x"
      using False by (auto dest: set_takeWhileD)
    have r: "?r = [] \<or> is_ws (hd ?r)"
      using hd_dropWhile[of "\<lambda>x. \<not> is_ws x" cs] by auto
    have split: "c # cs = ?w @ ?r" by simp
    have rep: "replace_ws (c # cs) = ?w @ (if ?r = [] then [] else CHR '' '' # ?x)"
      using replace_ws_nonws_run[OF w, of ?r] replace_ws_ws_head[OF r] by (simp only: split[symmetric])
    have words: "spec_words (c # cs) = ?w # spec_words ?r"
      using False by simp
    have d: "dropWhile is_ws (c # cs) = c # cs"
      using False by simp
    show ?thesis
    proof (cases "?r = []")
      case True
      have "replace_ws (c # cs) = ?w"
        by (simp only: rep True refl if_True append_Nil2)
      moreover have "spec_words ?r = []"
        by (simp only: True spec_words.simps)
      ultimately show ?thesis
        by (simp only: d words spec_join.simps rtrim_word[OF False])
    next
      case rne: False
      have rep': "replace_ws (c # cs) = (?w @ [CHR '' '']) @ ?x"
        by (simp only: rep rne if_False append_assoc append_Cons append_Nil)
      show ?thesis
      proof (cases "rev (dropWhile is_ws (rev ?x)) = []")
        case True
        have "spec_join (spec_words ?r) = []"
          using True unfolding IH .
        then have e: "spec_words ?r = []"
          by (rule spec_join_Nil[OF spec_words_nonempty])
        have "rev (dropWhile is_ws (rev ((?w @ [CHR '' '']) @ ?x))) = rev (dropWhile is_ws (rev (?w @ [CHR '' ''])))"
          using True by (rule rtrim_append_drop)
        also have "\<dots> = rev (dropWhile is_ws (rev ?w))"
          by (rule rtrim_snoc_ws[OF is_ws_space])
        also have "\<dots> = ?w"
          by (rule rtrim_word[OF False])
        finally show ?thesis
          by (simp only: d words rep' e spec_join.simps)
      next
        case False2: False
        have "spec_join (spec_words ?r) \<noteq> []"
          using False2 unfolding IH .
        then have ne: "spec_words ?r \<noteq> []" by auto
        have "rev (dropWhile is_ws (rev ((?w @ [CHR '' '']) @ ?x))) = (?w @ [CHR '' '']) @ rev (dropWhile is_ws (rev ?x))"
          using False2 by (rule rtrim_append_keep)
        also have "\<dots> = ?w @ CHR '' '' # spec_join (spec_words ?r)"
          by (simp only: IH append_assoc append_Cons append_Nil)
        also have "\<dots> = spec_join (?w # spec_words ?r)"
          by (rule spec_join_Cons[OF ne, symmetric])
        finally show ?thesis
          by (simp only: d words rep')
      qed
    qed
  qed
qed

lemma normalize_refines: "trim (replace_ws t) = spec_normalize t"
  unfolding trim_def spec_normalize_def dropWhile_replace_ws by (rule rtrim_replace_ws)

lemma single_spaced_replace_ws: "single_spaced (replace_ws t)"
proof (induction t rule: replace_ws.induct)
  case 1
  show ?case by simp
next
  case (2 c cs)
  show ?case
  proof (cases "is_ws c")
    case True
    have "dropWhile is_ws cs = [] \<or> \<not> is_ws (hd (dropWhile is_ws cs))"
      by (metis hd_dropWhile)
    then have "replace_ws (dropWhile is_ws cs) = [] \<or> \<not> is_ws (hd (replace_ws (dropWhile is_ws cs)))"
      by (rule replace_ws_hd)
    with True 2(1) show ?thesis by (simp add: is_ws_space)
  next
    case False
    with 2(2) show ?thesis by simp
  qed
qed

lemma replace_ws_fixed: "single_spaced s \<Longrightarrow> replace_ws s = s"
proof (induction s rule: replace_ws.induct)
  case 1
  show ?case by simp
next
  case (2 c cs)
  show ?case
  proof (cases "is_ws c")
    case True
    with 2(3) have c: "c = CHR '' ''" and hd: "cs = [] \<or> \<not> is_ws (hd cs)" and cs: "single_spaced cs"
      by simp_all
    from hd have d: "dropWhile is_ws cs = cs" by (cases cs) auto
    from 2(1)[OF True] cs d have "replace_ws cs = cs" by simp
    with True c d show ?thesis by simp
  next
    case False
    with 2(2,3) show ?thesis by simp
  qed
qed

lemma single_spaced_take: "single_spaced s \<Longrightarrow> single_spaced (take n s)"
proof (induction s arbitrary: n)
  case Nil
  show ?case by simp
next
  case (Cons c cs)
  show ?case
  proof (cases n)
    case 0
    then show ?thesis by simp
  next
    case (Suc m)
    have "take m cs = [] \<or> hd (take m cs) = hd cs"
      by (cases m; cases cs) auto
    with Cons Suc show ?thesis by (auto split: if_splits)
  qed
qed

lemma single_spaced_dropWhile: "single_spaced s \<Longrightarrow> single_spaced (dropWhile P s)"
  by (induction s) (auto split: if_splits)

lemma single_spaced_append:
  "single_spaced a \<Longrightarrow> single_spaced b \<Longrightarrow> b = [] \<or> \<not> is_ws (hd b) \<Longrightarrow> single_spaced (a @ b)"
proof (induction a)
  case Nil
  then show ?case by simp
next
  case (Cons c cs)
  have "hd (cs @ b) = (if cs = [] then hd b else hd cs)" by (cases cs) auto
  with Cons show ?case by (auto split: if_splits)
qed

lemma rtrim_is_take: "\<exists>k. rev (dropWhile P (rev s)) = take k s"
proof -
  have "rev (dropWhile P (rev s)) @ rev (takeWhile P (rev s)) = s"
    by (metis rev_append rev_rev_ident takeWhile_dropWhile_id)
  then have "take (length (rev (dropWhile P (rev s)))) s = rev (dropWhile P (rev s))"
    by (metis append_eq_conv_conj)
  then show ?thesis by metis
qed

lemma single_spaced_trim: "single_spaced s \<Longrightarrow> single_spaced (trim s)"
proof -
  assume "single_spaced s"
  then have "single_spaced (dropWhile is_ws s)" by (rule single_spaced_dropWhile)
  moreover obtain k where "trim s = take k (dropWhile is_ws s)"
    unfolding trim_def using rtrim_is_take by blast
  ultimately show ?thesis by (simp add: single_spaced_take)
qed

lemma trim_ends: "trim s = [] \<or> (\<not> is_ws (hd (trim s)) \<and> \<not> is_ws (last (trim s)))"
proof (cases "trim s = []")
  case True
  then show ?thesis by simp
next
  case False
  let ?y = "dropWhile is_ws s"
  obtain k where k: "trim s = take k ?y"
    unfolding trim_def using rtrim_is_take by blast
  with False have "?y \<noteq> []" "k \<noteq> 0" by auto
  then have "hd (trim s) = hd ?y" using k by (cases k; cases ?y) auto
  moreover have "\<not> is_ws (hd ?y)" using \<open>?y \<noteq> []\<close> by (metis hd_dropWhile)
  moreover have "last (trim s) = hd (dropWhile is_ws (rev ?y))"
    using False unfolding trim_def by (simp add: last_rev)
  moreover have "\<not> is_ws (hd (dropWhile is_ws (rev ?y)))"
    using False unfolding trim_def by (metis hd_dropWhile rev_is_Nil_conv)
  ultimately show ?thesis by simp
qed

lemma trim_fixed: "s = [] \<or> (\<not> is_ws (hd s) \<and> \<not> is_ws (last s)) \<Longrightarrow> trim s = s"
proof (cases "s = []")
  case True
  then show ?thesis by (simp add: trim_def)
next
  case False
  assume "s = [] \<or> (\<not> is_ws (hd s) \<and> \<not> is_ws (last s))"
  with False have h: "\<not> is_ws (hd s)" and l: "\<not> is_ws (last s)" by simp_all
  from h False have "dropWhile is_ws s = s" by (cases s) auto
  then show ?thesis unfolding trim_def using rtrim_last[OF False l] by simp
qed

lemma normal_normalize: "normal (trim (replace_ws t))"
  unfolding normal_def using single_spaced_trim[OF single_spaced_replace_ws] trim_ends by blast

lemma normalize_fixed: "normal s \<Longrightarrow> trim (replace_ws s) = s"
  unfolding normal_def by (simp add: replace_ws_fixed trim_fixed)

lemma normal_truncated:
  assumes "normal s" and "length s > 120"
  shows "normal (take 120 s @ ''...'')"
proof -
  from assms have ne: "s \<noteq> []" by auto
  with assms have sp: "single_spaced s" and h: "\<not> is_ws (hd s)"
    unfolding normal_def by simp_all
  have dots: "single_spaced ''...''" "\<not> is_ws (hd ''...'')" "\<not> is_ws (CHR ''.'')"
    by (simp_all add: is_ws_def)
  have "single_spaced (take 120 s @ ''...'')"
    using single_spaced_take[OF sp] dots by (intro single_spaced_append) simp_all
  moreover have "hd (take 120 s @ ''...'') = hd s"
    using ne by (cases s) auto
  moreover have "last (take 120 s @ ''...'') = CHR ''.''"
    by simp
  ultimately show ?thesis
    unfolding normal_def using h dots(3) by simp
qed

section \<open>Helper facts about the classifier, the store and the pipeline\<close>

lemma regex_test_sublist: "regex_test alts s = (\<exists>k\<in>set alts. sublist k s)"
  by (induction s) (auto simp: list_ex_iff sublist_Cons_right)

lemma lower_unit_another: "map lower_unit ''another'' = ''another''"
  by code_simp

lemma sublist_map_units: "sublist k s \<Longrightarrow> sublist (map f k) (map f s)"
  unfolding sublist_def by (metis map_append)

lemma not_in_another: "sublist ''not'' ''another''"
  by code_simp

lemma negative_group:
  assumes "regex_test negative_alts (toLowerCase s)"
  shows "analyzeSentiment s = (''angry'', ''critical'') \<or>
         analyzeSentiment s = (''frustrated'', ''high'') \<or>
         analyzeSentiment s = (''negative'', ''high'')"
  using assms by (simp add: analyzeSentiment_def Let_def)

lemma next_id_fresh: "t \<in> set tickets \<Longrightarrow> id_t t < next_id tickets"
proof (cases tickets)
  case Nil
  assume "t \<in> set tickets"
  with Nil show ?thesis by simp
next
  case (Cons u us)
  assume t: "t \<in> set tickets"
  have "fold max (map id_t us) (id_t u) = Max (set (id_t u # map id_t us))"
    by (rule Max.set_eq_fold[symmetric])
  moreover have "id_t t \<le> Max (set (id_t u # map id_t us))"
    using t Cons by (intro Max_ge) auto
  ultimately show ?thesis
    using Cons by (simp add: next_id_def)
qed

lemma runAll_skips_processed:
  "list_all (\<lambda>t. \<not> falsy (summary t) \<and> \<not> falsy (action t)) tickets \<Longrightarrow> runAll tickets = []"
  by (induction tickets) (auto simp: runAll_def)

lemma runPipeline_unresolved:
  "resolve tickets i ticketOverride = None \<Longrightarrow> runPipeline tickets i ticketOverride m1 m2 m3 prev = prev"
  by (simp add: runPipeline_def runPipeline_trace_def)

lemma own_updateTicket:
  "p_id p = None \<Longrightarrow>
   filter (\<lambda>t. id_t t = i) (updateTicket i p st) = map (\<lambda>t. spread t p) (filter (\<lambda>t. id_t t = i) st)"
  by (induction st) (auto simp: updateTicket_def spread_def)

lemma leaves_identity: "leaves i (\<lambda>st. st)"
  by (simp add: leaves_def)

lemma leaves_updateTicket: "j \<noteq> i \<Longrightarrow> p_id p = None \<Longrightarrow> leaves i (updateTicket j p)"
proof -
  assume j: "j \<noteq> i" and p: "p_id p = None"
  have "filter (\<lambda>t. id_t t = i) (updateTicket j p st) = filter (\<lambda>t. id_t t = i) st" for st
    using j p by (induction st) (auto simp: updateTicket_def spread_def)
  then show ?thesis by (simp add: leaves_def)
qed

lemma runPipeline_trace_own:
  assumes "resolve tickets i ticketOverride = Some ticket"
    and "leaves i m1" and "leaves i m2" and "leaves i m3"
  shows "map (filter (\<lambda>t. id_t t = i)) (runPipeline_trace tickets i ticketOverride m1 m2 m3 prev) =
    (let own = filter (\<lambda>t. id_t t = i) prev;
         s = summarize (text_t ticket); sent = analyzeSentiment s;
         a = routeDecision (Some (snd sent)) (Some (fst sent))
     in [map (\<lambda>t. t\<lparr>stage := Summarized\<rparr>) own,
         map (\<lambda>t. t\<lparr>stage := Summarized, summary := Some s\<rparr>) own,
         map (\<lambda>t. t\<lparr>stage := Sentiment, summary := Some s\<rparr>) own,
         map (\<lambda>t. t\<lparr>stage := Sentiment, summary := Some s,
                sentiment := Some (fst sent), urgency := Some (snd sent)\<rparr>) own,
         map (\<lambda>t. t\<lparr>stage := Routed, summary := Some s,
                sentiment := Some (fst sent), urgency := Some (snd sent)\<rparr>) own,
         map (\<lambda>t. t\<lparr>stage := Routed, summary := Some s,
                sentiment := Some (fst sent), urgency := Some (snd sent), action := Some a\<rparr>) own])"
proof -
  have m: "filter (\<lambda>t. id_t t = i) (m1 st) = filter (\<lambda>t. id_t t = i) st"
    "filter (\<lambda>t. id_t t = i) (m2 st) = filter (\<lambda>t. id_t t = i) st"
    "filter (\<lambda>t. id_t t = i) (m3 st) = filter (\<lambda>t. id_t t = i) st" for st
    using assms(2-4) by (simp_all add: leaves_def)
  have p: "p_id (no_patch\<lparr>p_stage := Some g\<rparr>) = None"
    "p_id (no_patch\<lparr>p_summary := Some v\<rparr>) = None"
    "p_id (no_patch\<lparr>p_sentiment := Some v, p_urgency := Some w\<rparr>) = None"
    "p_id (no_patch\<lparr>p_action := Some v\<rparr>) = None" for g v w
    by (simp_all add: no_patch_def)
  have "map (filter (\<lambda>t. id_t t = i)) (runPipeline_trace tickets i ticketOverride m1 m2 m3 prev) =
    (let own = filter (\<lambda>t. id_t t = i) prev;
         s = summarize (text_t ticket); sent = analyzeSentiment s;
         a = routeDecision (Some (snd sent)) (Some (fst sent));
         q1 = no_patch\<lparr>p_stage := Some Summarized\<rparr>;
         q2 = no_patch\<lparr>p_summary := Some (Some s)\<rparr>;
         q3 = no_patch\<lparr>p_stage := Some Sentiment\<rparr>;
         q4 = no_patch\<lparr>p_sentiment := Some (Some (fst sent)), p_urgency := Some (Some (snd sent))\<rparr>;
         q5 = no_patch\<lparr>p_stage := Some Routed\<rparr>;
         q6 = no_patch\<lparr>p_action := Some (Some a)\<rparr>
     in [map (\<lambda>t. spread t q1) own,
         map (\<lambda>t. spread (spread t q1) q2) own,
         map (\<lambda>t. spread (spread (spread t q1) q2) q3) own,
         map (\<lambda>t. spread (spread (spread (spread t q1) q2) q3) q4) own,
         map (\<lambda>t. spread (spread (spread (spread (spread t q1) q2) q3) q4) q5) own,
         map (\<lambda>t. spread (spread (spread (spread (spread (spread t q1) q2) q3) q4) q5) q6) own])"
    by (simp only: runPipeline_trace_def assms(1) option.case Let_def list.map
        own_updateTicket[OF p(1)] own_updateTicket[OF p(2)] own_updateTicket[OF p(3)]
        own_updateTicket[OF p(4)] m map_map comp_def)
  also have "\<dots> =
    (let own = filter (\<lambda>t. id_t t = i) prev;
         s = summarize (text_t ticket); sent = analyzeSentiment s;
         a = routeDecision (Some (snd sent)) (Some (fst sent))
     in [map (\<lambda>t. t\<lparr>stage := Summarized\<rparr>) own,
         map (\<lambda>t. t\<lparr>stage := Summarized, summary := Some s\<rparr>) own,
         map (\<lambda>t. t\<lparr>stage := Sentiment, summary := Some s\<rparr>) own,
         map (\<lambda>t. t\<lparr>stage := Sentiment, summary := Some s,
                sentiment := Some (fst sent), urgency := Some (snd sent)\<rparr>) own,
         map (\<lambda>t. t\<lparr>stage := Routed, summary := Some s,
                sentiment := Some (fst sent), urgency := Some (snd sent)\<rparr>) own,
         map (\<lambda>t. t\<lparr>stage := Routed, summary := Some s,
                sentiment := Some (fst sent), urgency := Some (snd sent), action := Some a\<rparr>) own])"
    by (simp add: Let_def spread_def no_patch_def)
  finally show ?thesis .
qed

lemma ticket3_classified:
  "analyzeSentiment (summarize (text_t (initialTickets ! 2))) = (''angry'', ''critical'')"
  by code_simp


lemma ticket1_classified:
  "analyzeSentiment (summarize (text_t (initialTickets ! 0))) = (''frustrated'', ''high'')"
  by code_simp

section \<open>The claims\<close>

text \<open>
  C1. Claimed: once every ticket of the store has had a completed pipeline run, \<^verbatim>\<open>runAll\<close>
  calls the Orchestrator for no ticket, also when a ticket's text is empty or whitespace
  only. The code does otherwise on such a ticket. The completed run of the ticket with
  text \<^verbatim>\<open>"   "\<close> leaves the summary \<^verbatim>\<open>""\<close>, which \<^verbatim>\<open>!t.summary\<close> takes for a missing one, so
  \<^verbatim>\<open>runAll\<close> calls \<^verbatim>\<open>runPipeline\<close> for it again.
\<close>

theorem runAll_reruns_blank_ticket:
  "blank_store = [blank_ticket\<lparr>stage := Routed, summary := Some [], sentiment := Some ''neutral'',
       urgency := Some ''medium'', action := Some ''normal_queue''\<rparr>] \<and>
   runAll blank_store = [1]"
  by code_simp

text \<open>
  C2. Claimed: every \<^verbatim>\<open>add(text)\<close> call, also in rapid succession, assigns an id greater
  than every id in the store at the time of the call. The code computes the id from the
  \<^verbatim>\<open>tickets\<close> of the render that created the handler, not from the store the insertion is
  applied to: two calls of the same handler on the seed store both take the id 4, and the
  store then holds two tickets with the id 4.
\<close>

theorem addTicket_same_render_same_id:
  "fst (snd (addTicket initialTickets ''a'' initialTickets)) = 4 \<and>
   fst (snd (addTicket initialTickets ''b'' (fst (addTicket initialTickets ''a'' initialTickets)))) = 4 \<and>
   map id_t (fst (addTicket initialTickets ''b'' (fst (addTicket initialTickets ''a'' initialTickets))))
     = [4, 4, 1, 2, 3]"
  by (simp add: addTicket_def next_id_def initialTickets_def Let_def)

text \<open>
  C3. Claimed: a summary holding both a threat phrase and a gratitude phrase is classified
  angry and critical. The code tests the threat phrases only after the negative keyword
  group has matched, and that group lacks the threat phrases \<^verbatim>\<open>i'll move\<close> and
  \<^verbatim>\<open>i will move\<close>: the summary \<^verbatim>\<open>I'll move, thanks\<close> matches the threat patterns and the
  gratitude patterns, and is classified neutral and low.
\<close>

theorem threat_without_negative_keyword:
  "regex_test threat_alts (toLowerCase ''I'll move, thanks'') \<and>
   regex_test gratitude_alts (toLowerCase ''I'll move, thanks'') \<and>
   summarize ''I'll move, thanks'' = ''I'll move, thanks'' \<and>
   analyzeSentiment ''I'll move, thanks'' = (''neutral'', ''low'')"
  by code_simp

text \<open>
  C4. When the id resolves (in the rendered tickets, or through the supplied ticket) and
  nothing that runs during the run's awaits touches the tickets with that id (no other
  run for the same id interleaves), then after the run the store holds the same tickets
  with that id as before, each with the stage routed and with summary, sentiment, urgency
  and action written: the Summarizer's result on the resolved ticket's text, the
  classifier's result on that summary, and the Router's decision on that result. So
  every ticket of the store with that id has the stage routed and all four derived
  fields set.
\<close>

theorem runPipeline_routed:
  assumes "resolve tickets i ticketOverride = Some ticket"
    and "leaves i m1" and "leaves i m2" and "leaves i m3"
  shows "filter (\<lambda>t. id_t t = i) (runPipeline tickets i ticketOverride m1 m2 m3 prev) =
      map (\<lambda>t. t\<lparr>stage := Routed, summary := Some (summarize (text_t ticket)),
               sentiment := Some (fst (analyzeSentiment (summarize (text_t ticket)))),
               urgency := Some (snd (analyzeSentiment (summarize (text_t ticket)))),
               action := Some (routeDecision (Some (snd (analyzeSentiment (summarize (text_t ticket)))))
                 (Some (fst (analyzeSentiment (summarize (text_t ticket))))))\<rparr>)
        (filter (\<lambda>t. id_t t = i) prev) \<and>
    (\<forall>t\<in>set (runPipeline tickets i ticketOverride m1 m2 m3 prev). id_t t = i \<longrightarrow>
       stage t = Routed \<and> summary t \<noteq> None \<and> sentiment t \<noteq> None \<and> urgency t \<noteq> None \<and>
       action t \<noteq> None)"
proof -
  let ?tr = "runPipeline_trace tickets i ticketOverride m1 m2 m3 prev"
  let ?res = "runPipeline tickets i ticketOverride m1 m2 m3 prev"
  let ?own = "filter (\<lambda>t. id_t t = i)"
  let ?f = "\<lambda>t. t\<lparr>stage := Routed, summary := Some (summarize (text_t ticket)),
               sentiment := Some (fst (analyzeSentiment (summarize (text_t ticket)))),
               urgency := Some (snd (analyzeSentiment (summarize (text_t ticket)))),
               action := Some (routeDecision (Some (snd (analyzeSentiment (summarize (text_t ticket)))))
                 (Some (fst (analyzeSentiment (summarize (text_t ticket))))))\<rparr>"
  note own = runPipeline_trace_own[OF assms, of prev]
  have six: "length ?tr = 6"
    using assms(1) by (simp add: runPipeline_trace_def Let_def)
  then have ne: "?tr \<noteq> []" by auto
  have "?own ?res = ?own (last ?tr)"
    using ne by (simp add: runPipeline_def)
  also have "\<dots> = last (map ?own ?tr)"
    using ne by (simp add: last_map)
  also have "\<dots> = map ?f (?own prev)"
    unfolding own by (simp add: Let_def)
  finally have eq: "?own ?res = map ?f (?own prev)" .
  have "stage t = Routed \<and> summary t \<noteq> None \<and> sentiment t \<noteq> None \<and> urgency t \<noteq> None \<and>
       action t \<noteq> None" if t: "t \<in> set ?res" "id_t t = i" for t
  proof -
    from t have "t \<in> set (?own ?res)" by simp
    then have "t \<in> set (map ?f (?own prev))" by (simp only: eq)
    then obtain u where "t = ?f u" by auto
    then show ?thesis by simp
  qed
  with eq show ?thesis by blast
qed

theorem runPipeline_routed_witness:
  "filter (\<lambda>t. id_t t = 3)
     (runPipeline initialTickets 3 None (updateTicket 1 (no_patch\<lparr>p_stage := Some Summarized\<rparr>))
        (\<lambda>st. st) (\<lambda>st. st) initialTickets) =
   [(initialTickets ! 2)\<lparr>stage := Routed, summary := Some (summarize (text_t (initialTickets ! 2))),
      sentiment := Some ''angry'', urgency := Some ''critical'',
      action := Some ''escalate_to_human''\<rparr>]"
proof -
  have r: "resolve initialTickets 3 None = Some (initialTickets ! 2)"
    by (simp add: resolve_def initialTickets_def)
  have m1: "leaves 3 (updateTicket 1 (no_patch\<lparr>p_stage := Some Summarized\<rparr>))"
    by (rule leaves_updateTicket) (simp_all add: no_patch_def)
  have own: "filter (\<lambda>t. id_t t = 3) initialTickets = [initialTickets ! 2]"
    by (simp add: initialTickets_def)
  from runPipeline_routed[OF r m1 leaves_identity leaves_identity, of initialTickets]
  show ?thesis
    by (simp add: own ticket3_classified routeDecision_def)
qed

text \<open>
  C5. For every text the Summarizer's result is fixed by the normalised text, that is the
  words of the text joined by single spaces (which is a normal string: single-spaced,
  with no whitespace at either end): if the normalised text is longer than 120 code units
  the result is its first 120 code units followed by three dots, otherwise the result is
  the normalised text unchanged. The result is never longer than 123 code units.
\<close>

theorem summarize_normalizes_and_truncates:
  "normal (spec_normalize t) \<and>
   summarize t = (if length (spec_normalize t) > 120 then take 120 (spec_normalize t) @ ''...''
                  else spec_normalize t) \<and>
   length (summarize t) \<le> 123"
proof -
  have n: "normal (spec_normalize t)"
    using normal_normalize[of t] by (simp only: normalize_refines)
  have s: "summarize t = (if length (spec_normalize t) > 120 then take 120 (spec_normalize t) @ ''...''
                  else spec_normalize t)"
    by (simp add: summarize_def normalize_refines Let_def)
  have "length (summarize t) \<le> 123"
    unfolding s by simp
  with n s show ?thesis by (simp only: simp_thms)
qed

text \<open>
  C6. The Summarizer is idempotent: for every text, summarising the Summarizer's result
  gives that result again. (A truncated result has 123 code units and is truncated a
  second time, to the same 120 code units and the same three dots.)
\<close>

theorem summarize_idempotent: "summarize (summarize t) = summarize t"
proof -
  let ?s = "trim (replace_ws t)"
  show ?thesis
  proof (cases "length ?s > 120")
    case False
    then have "summarize t = ?s" by (simp add: summarize_def)
    moreover have "trim (replace_ws ?s) = ?s"
      by (rule normalize_fixed[OF normal_normalize])
    ultimately show ?thesis using False by (simp add: summarize_def)
  next
    case True
    let ?o = "take 120 ?s @ ''...''"
    have o: "summarize t = ?o" using True by (simp add: summarize_def)
    have fx: "trim (replace_ws ?o) = ?o"
      by (rule normalize_fixed[OF normal_truncated[OF normal_normalize True]])
    have len: "length ?o = 123" using True by simp
    have "summarize ?o = take 120 ?o @ ''...''"
      unfolding summarize_def fx Let_def using len by simp
    moreover have "take 120 ?o = take 120 ?s" using True by simp
    ultimately show ?thesis using o by simp
  qed
qed

text \<open>
  C7. For every pair of an urgency and a sentiment (each an optional string), the Router
  returns escalate_to_human exactly when the urgency is critical or high or the sentiment
  is angry, and normal_queue exactly in every other case.
\<close>

theorem routeDecision_iff:
  "(routeDecision u s = ''escalate_to_human'') =
     (u = Some ''critical'' \<or> u = Some ''high'' \<or> s = Some ''angry'') \<and>
   (routeDecision u s = ''normal_queue'') =
     (\<not> (u = Some ''critical'' \<or> u = Some ''high'' \<or> s = Some ''angry''))"
  by (simp add: routeDecision_def)



text \<open>
  C9. For every store, id and patch, \<^verbatim>\<open>updateTicket\<close> keeps the number and the order of the
  tickets; a ticket whose id differs is unchanged; in a ticket whose id matches, each
  field the patch gives takes the patch's value and each field the patch does not give
  keeps its value; and when no ticket has the id the store is unchanged. The operation is
  total: it has no error result.
\<close>

theorem updateTicket_frame:
  "length (updateTicket i p prev) = length prev \<and>
   (\<forall>k<length prev. id_t (prev ! k) \<noteq> i \<longrightarrow> updateTicket i p prev ! k = prev ! k) \<and>
   (\<forall>k<length prev. id_t (prev ! k) = i \<longrightarrow>
      (p_id p = None \<longrightarrow> id_t (updateTicket i p prev ! k) = id_t (prev ! k)) \<and>
      (\<forall>v. p_id p = Some v \<longrightarrow> id_t (updateTicket i p prev ! k) = v) \<and>
      (p_text p = None \<longrightarrow> text_t (updateTicket i p prev ! k) = text_t (prev ! k)) \<and>
      (\<forall>v. p_text p = Some v \<longrightarrow> text_t (updateTicket i p prev ! k) = v) \<and>
      (p_stage p = None \<longrightarrow> stage (updateTicket i p prev ! k) = stage (prev ! k)) \<and>
      (\<forall>v. p_stage p = Some v \<longrightarrow> stage (updateTicket i p prev ! k) = v) \<and>
      (p_summary p = None \<longrightarrow> summary (updateTicket i p prev ! k) = summary (prev ! k)) \<and>
      (\<forall>v. p_summary p = Some v \<longrightarrow> summary (updateTicket i p prev ! k) = v) \<and>
      (p_sentiment p = None \<longrightarrow> sentiment (updateTicket i p prev ! k) = sentiment (prev ! k)) \<and>
      (\<forall>v. p_sentiment p = Some v \<longrightarrow> sentiment (updateTicket i p prev ! k) = v) \<and>
      (p_urgency p = None \<longrightarrow> urgency (updateTicket i p prev ! k) = urgency (prev ! k)) \<and>
      (\<forall>v. p_urgency p = Some v \<longrightarrow> urgency (updateTicket i p prev ! k) = v) \<and>
      (p_action p = None \<longrightarrow> action (updateTicket i p prev ! k) = action (prev ! k)) \<and>
      (\<forall>v. p_action p = Some v \<longrightarrow> action (updateTicket i p prev ! k) = v)) \<and>
   ((\<forall>t\<in>set prev. id_t t \<noteq> i) \<longrightarrow> updateTicket i p prev = prev)"
proof -
  have len: "length (updateTicket i p prev) = length prev"
    by (simp add: updateTicket_def)
  have other: "\<forall>k<length prev. id_t (prev ! k) \<noteq> i \<longrightarrow> updateTicket i p prev ! k = prev ! k"
    by (simp add: updateTicket_def)
  have hit: "\<forall>k<length prev. id_t (prev ! k) = i \<longrightarrow> updateTicket i p prev ! k = spread (prev ! k) p"
    by (simp add: updateTicket_def)
  have none: "(\<forall>t\<in>set prev. id_t t \<noteq> i) \<longrightarrow> updateTicket i p prev = prev"
    by (simp add: updateTicket_def map_idI)
  from len other hit none show ?thesis
    by (simp add: spread_def)
qed

theorem updateTicket_frame_witness:
  "length (updateTicket 2 (no_patch\<lparr>p_stage := Some Summarized\<rparr>) initialTickets) = 3 \<and>
   updateTicket 2 (no_patch\<lparr>p_stage := Some Summarized\<rparr>) initialTickets ! 0 = initialTickets ! 0 \<and>
   updateTicket 2 (no_patch\<lparr>p_stage := Some Summarized\<rparr>) initialTickets ! 2 = initialTickets ! 2 \<and>
   stage (updateTicket 2 (no_patch\<lparr>p_stage := Some Summarized\<rparr>) initialTickets ! 1) = Summarized \<and>
   summary (updateTicket 2 (no_patch\<lparr>p_stage := Some Summarized\<rparr>) initialTickets ! 1) = None \<and>
   text_t (updateTicket 2 (no_patch\<lparr>p_stage := Some Summarized\<rparr>) initialTickets ! 1) =
     text_t (initialTickets ! 1) \<and>
   updateTicket 7 (no_patch\<lparr>p_stage := Some Summarized\<rparr>) initialTickets = initialTickets"
proof -
  let ?p = "no_patch\<lparr>p_stage := Some Summarized\<rparr>"
  have ids: "length initialTickets = 3" "id_t (initialTickets ! 0) = 1"
    "id_t (initialTickets ! 1) = 2" "id_t (initialTickets ! 2) = 3"
    "summary (initialTickets ! 1) = None"
    by (simp_all add: initialTickets_def)
  have p: "p_stage ?p = Some Summarized" "p_summary ?p = None" "p_text ?p = None"
    by (simp_all add: no_patch_def)
  have absent: "\<forall>t\<in>set initialTickets. id_t t \<noteq> 7"
    by (simp add: initialTickets_def)
  from updateTicket_frame[of 2 ?p initialTickets] updateTicket_frame[of 7 ?p initialTickets]
    ids p absent
  show ?thesis by simp
qed

text \<open>
  C10. The classifier's keyword tests are substring tests on the lower-cased summary, with
  no regard for word boundaries. So every summary that contains \<^verbatim>\<open>another\<close> (as it
  stands, or after lower-casing) contains the keyword \<^verbatim>\<open>not\<close> and is classified in the
  negative group, with urgency critical or high, and is escalated. The summary
  \<^verbatim>\<open>Please send another invoice\<close> is classified negative and high, and escalated.
\<close>

theorem another_is_negative:
  "(regex_test alts x = (\<exists>k\<in>set alts. sublist k x)) \<and>
   (sublist ''another'' s \<or> sublist ''another'' (toLowerCase s) \<longrightarrow>
      regex_test negative_alts (toLowerCase s) \<and>
      fst (analyzeSentiment s) \<in> {''angry'', ''frustrated'', ''negative''} \<and>
      snd (analyzeSentiment s) \<in> {''critical'', ''high''} \<and>
      routeDecision (Some (snd (analyzeSentiment s))) (Some (fst (analyzeSentiment s)))
        = ''escalate_to_human'') \<and>
   analyzeSentiment ''Please send another invoice'' = (''negative'', ''high'') \<and>
   routeDecision (Some ''high'') (Some ''negative'') = ''escalate_to_human''"
proof -
  have gen: "regex_test negative_alts (toLowerCase s) \<and>
      fst (analyzeSentiment s) \<in> {''angry'', ''frustrated'', ''negative''} \<and>
      snd (analyzeSentiment s) \<in> {''critical'', ''high''} \<and>
      routeDecision (Some (snd (analyzeSentiment s))) (Some (fst (analyzeSentiment s)))
        = ''escalate_to_human''"
    if h: "sublist ''another'' s \<or> sublist ''another'' (toLowerCase s)"
  proof -
    have low: "sublist ''another'' (toLowerCase s)"
    proof (cases "sublist ''another'' (toLowerCase s)")
      case True
      then show ?thesis .
    next
      case False
      with h have "sublist ''another'' s" by simp
      then have "sublist (map lower_unit ''another'') (map lower_unit s)"
        by (rule sublist_map_units)
      then show ?thesis
        unfolding lower_unit_another toLowerCase_def .
    qed
    with not_in_another have "sublist ''not'' (toLowerCase s)"
      by (rule sublist_order.order.trans)
    then have neg: "regex_test negative_alts (toLowerCase s)"
      unfolding regex_test_sublist by (auto simp: negative_alts_def)
    from negative_group[OF neg] have
      "fst (analyzeSentiment s) \<in> {''angry'', ''frustrated'', ''negative''} \<and>
       snd (analyzeSentiment s) \<in> {''critical'', ''high''} \<and>
       routeDecision (Some (snd (analyzeSentiment s))) (Some (fst (analyzeSentiment s)))
        = ''escalate_to_human''"
      by (auto simp: routeDecision_def)
    with neg show ?thesis by (simp only: simp_thms)
  qed
  have ex: "analyzeSentiment ''Please send another invoice'' = (''negative'', ''high'')"
    by code_simp
  have rt: "routeDecision (Some ''high'') (Some ''negative'') = ''escalate_to_human''"
    by (simp add: routeDecision_def)
  have c1: "regex_test alts x = (\<exists>k\<in>set alts. sublist k x)"
    by (rule regex_test_sublist)
  have c2: "sublist ''another'' s \<or> sublist ''another'' (toLowerCase s) \<longrightarrow>
      regex_test negative_alts (toLowerCase s) \<and>
      fst (analyzeSentiment s) \<in> {''angry'', ''frustrated'', ''negative''} \<and>
      snd (analyzeSentiment s) \<in> {''critical'', ''high''} \<and>
      routeDecision (Some (snd (analyzeSentiment s))) (Some (fst (analyzeSentiment s)))
        = ''escalate_to_human''"
    by (rule impI) (rule gen)
  show ?thesis
    by (intro conjI) (rule c1, rule c2, rule ex, rule rt)
qed

theorem another_is_negative_witness:
  "sublist ''another'' ''Could I have another look?'' \<and>
   regex_test negative_alts (toLowerCase ''Could I have another look?'') \<and>
   snd (analyzeSentiment ''Could I have another look?'') \<in> {''critical'', ''high''} \<and>
   routeDecision (Some (snd (analyzeSentiment ''Could I have another look?'')))
     (Some (fst (analyzeSentiment ''Could I have another look?''))) = ''escalate_to_human''"
proof -
  have h: "sublist ''another'' ''Could I have another look?''"
    by code_simp
  from another_is_negative[of negative_alts "toLowerCase ''Could I have another look?''"
      "''Could I have another look?''"] h
  show ?thesis by blast
qed

end
